theory Spec2Isabelle
  imports Main "HOL-Library.AList"
begin

section \<open>Page table\<close>

text \<open>
  One row of \<^verbatim>\<open>PageTable::rows\<close>. The declaration of the row is in
  \<^verbatim>\<open>page_table.h\<close>, which is not among the sources at hand; the four fields are the
  ones \<^verbatim>\<open>page_table.cpp\<close> and \<^verbatim>\<open>simulation.cpp\<close> read and write. The two
  timestamps are C integers: \<^verbatim>\<open>page_table.cpp\<close> copies them into a local
  \<^verbatim>\<open>int time\<close> and compares them with \<^verbatim>\<open>INT_MAX\<close>. They are modelled as
  mathematical integers; the scans below only compare and copy them, so no arithmetic
  can wrap there.
\<close>

record row =
  present :: bool
  frame :: nat
  loaded_at :: int
  last_accessed_at :: int

definition INT_MAX :: int where
  "INT_MAX = 2147483647"

text \<open>
  \<^verbatim>\<open>get_present_page_count\<close>: the loop over \<^verbatim>\<open>rows\<close> with the counter
  \<^verbatim>\<open>present\<close> as accumulator.
\<close>

fun count_present :: "row list \<Rightarrow> nat \<Rightarrow> nat" where
  "count_present [] n = n"
| "count_present (r # rs) n = (if present r then count_present rs (Suc n) else count_present rs n)"

definition get_present_page_count :: "row list \<Rightarrow> nat" where
  "get_present_page_count rows = count_present rows 0"

text \<open>
  \<^verbatim>\<open>get_oldest_page\<close>: the loop state is the index \<^verbatim>\<open>i\<close>, the candidate
  \<^verbatim>\<open>index_of_oldest\<close> and the smallest timestamp seen, \<^verbatim>\<open>time\<close>, which starts
  at \<^verbatim>\<open>INT_MAX\<close>. The test is the source's: strictly smaller timestamp, and present.
\<close>

fun oldest_loop :: "row list \<Rightarrow> nat \<Rightarrow> nat \<Rightarrow> int \<Rightarrow> nat" where
  "oldest_loop [] i index_of_oldest t = index_of_oldest"
| "oldest_loop (r # rs) i index_of_oldest t =
     (if loaded_at r < t \<and> present r
      then oldest_loop rs (Suc i) i (loaded_at r)
      else oldest_loop rs (Suc i) index_of_oldest t)"

definition get_oldest_page :: "row list \<Rightarrow> nat" where
  "get_oldest_page rows = oldest_loop rows 0 0 INT_MAX"

text \<open>
  \<^verbatim>\<open>get_least_recently_used_page\<close>: the same loop on \<^verbatim>\<open>last_accessed_at\<close>.
\<close>

fun last_used_loop :: "row list \<Rightarrow> nat \<Rightarrow> nat \<Rightarrow> int \<Rightarrow> nat" where
  "last_used_loop [] i index_of_last_used t = index_of_last_used"
| "last_used_loop (r # rs) i index_of_last_used t =
     (if last_accessed_at r < t \<and> present r
      then last_used_loop rs (Suc i) i (last_accessed_at r)
      else last_used_loop rs (Suc i) index_of_last_used t)"

definition get_least_recently_used_page :: "row list \<Rightarrow> nat" where
  "get_least_recently_used_page rows = last_used_loop rows 0 0 INT_MAX"

text \<open>
  Both loops are instances of one scan for the first row with the smallest key below a
  bound; it is used for the proofs only.
\<close>

fun min_scan :: "(row \<Rightarrow> int) \<Rightarrow> row list \<Rightarrow> nat \<Rightarrow> nat \<Rightarrow> int \<Rightarrow> nat" where
  "min_scan key [] i best t = best"
| "min_scan key (r # rs) i best t =
     (if key r < t \<and> present r
      then min_scan key rs (Suc i) i (key r)
      else min_scan key rs (Suc i) best t)"

section \<open>Process\<close>

text \<open>
  A \<^verbatim>\<open>Process\<close> as the engine uses it: its page table (the vector
  \<^verbatim>\<open>page_table.rows\<close>), its pages and its two counters. Of a page only
  \<^verbatim>\<open>is_valid_offset\<close> is ever asked, so a page is represented by its size in bytes.
  The counters are unsigned and only ever incremented; they are natural numbers here.
\<close>

record process =
  page_table :: "row list"
  pages :: "nat list"
  memory_accesses :: nat
  page_faults :: nat

definition is_valid_page :: "process \<Rightarrow> nat \<Rightarrow> bool" where
  "is_valid_page p index \<longleftrightarrow> 0 \<le> index \<and> index < length (page_table p)"

definition get_rss :: "process \<Rightarrow> nat" where
  "get_rss p = get_present_page_count (page_table p)"

text \<open>
  Modelled from the spec: \<^verbatim>\<open>Page::is_valid_offset\<close> is defined in the page class,
  whose file is not among the sources at hand. The specification calls an offset invalid
  when it is outside the page's valid byte range.
\<close>

definition is_valid_offset :: "nat \<Rightarrow> nat \<Rightarrow> bool" where
  "is_valid_offset page_size off \<longleftrightarrow> off < page_size"

section \<open>Simulation\<close>

datatype replacement_strategy = FIFO | LRU

text \<open>
  The fields of \<^verbatim>\<open>FlagOptions\<close> that the engine reads. \<^verbatim>\<open>max_frames\<close> is
  compared with the unsigned resident-set size, so it is a natural number here.
\<close>

record flag_options =
  verbose :: bool
  max_frames :: nat
  strategy :: replacement_strategy

record virtual_address =
  process_id :: int
  page :: nat
  offset :: nat

text \<open>What the engine writes to standard output, one event per line printed.\<close>

datatype event =
    PrintAddress virtual_address
  | InMemory
  | PageFault
  | PrintPhysical nat nat
  | PrintRSS nat
  | SegfaultInvalidPage
  | SegfaultInvalidOffset

text \<open>
  The members of \<^verbatim>\<open>Simulation\<close> that \<^verbatim>\<open>run\<close> reads and writes:
  the map \<^verbatim>\<open>processes\<close> from process id to process (an association list with one
  entry per id, as \<^verbatim>\<open>std::map\<close> has), the list \<^verbatim>\<open>free_frames\<close>, the vector
  \<^verbatim>\<open>frames\<close> (each \<^verbatim>\<open>Frame\<close> records the process and the page it was set
  to), the fault counter \<^verbatim>\<open>page_faults\<close>, the clock \<^verbatim>\<open>time\<close> and the
  standard output (\<^verbatim>\<open>std::cout\<close>).
\<close>

record simulation =
  processes :: "(int \<times> process) list"
  free_frames :: "nat list"
  frames :: "(int \<times> nat) list"
  total_page_faults :: nat
  time :: int
  stdout :: "event list"

text \<open>
  \<^verbatim>\<open>NUM_FRAMES\<close> is declared in \<^verbatim>\<open>simulation.h\<close>, not among the sources;
  \<^verbatim>\<open>run\<close> fills the pool with the literal 512, which is the value taken here.
\<close>

definition NUM_FRAMES :: nat where
  "NUM_FRAMES = 512"

text \<open>
  An access ends in one of three ways: the function returns; the program prints a
  segmentation fault and calls \<^verbatim>\<open>exit(0)\<close>, leaving the state it had then; or the
  C++ has no defined behaviour: the process id is not in the map (a null pointer is
  dereferenced), \<^verbatim>\<open>front()\<close> is called on an empty list of free frames, the page has
  no entry in \<^verbatim>\<open>pages\<close>, or the clock overflows.
\<close>

datatype fault = InvalidPage | InvalidOffset

datatype ub = NullProcess | EmptyFreeList | PageOutOfRange | ClockOverflow

datatype outcome = Returned simulation | Exited fault simulation | Undefined ub

fun state_of :: "outcome \<Rightarrow> simulation option" where
  "state_of (Returned s) = Some s"
| "state_of (Exited f s) = Some s"
| "state_of (Undefined u) = None"

text \<open>
  The three assignments to rows of the page table. \<^verbatim>\<open>handle_page_fault\<close> repeats
  the eviction text in its FIFO and its LRU branch; the two copies differ only in the
  function that picks \<^verbatim>\<open>page_index\<close>.
\<close>

definition touch_page :: "row list \<Rightarrow> nat \<Rightarrow> int \<Rightarrow> row list" where
  "touch_page rows pg t = rows[pg := (rows ! pg)\<lparr>last_accessed_at := t\<rparr>]"

definition load_page :: "row list \<Rightarrow> nat \<Rightarrow> nat \<Rightarrow> int \<Rightarrow> row list" where
  "load_page rows pg frame_index t =
     rows[pg := (rows ! pg)\<lparr>frame := frame_index, present := True,
                            loaded_at := t, last_accessed_at := t\<rparr>]"

definition replace_page :: "row list \<Rightarrow> nat \<Rightarrow> nat \<Rightarrow> int \<Rightarrow> row list" where
  "replace_page rows page_index pg t =
     (let rows1 = rows[page_index := (rows ! page_index)\<lparr>present := False\<rparr>];
          frame_index = frame (rows1 ! page_index)
      in load_page rows1 pg frame_index t)"

text \<open>
  \<^verbatim>\<open>handle_page_fault\<close>. The process is passed by pointer in the source and changed
  in place; here the changed process is returned beside the changed simulation. The
  caller has checked that \<^verbatim>\<open>page\<close> is a valid index.
\<close>

definition handle_page_fault ::
  "flag_options \<Rightarrow> int \<Rightarrow> process \<Rightarrow> nat \<Rightarrow> simulation \<Rightarrow> ub + process \<times> simulation" where
  "handle_page_fault flags pid proc pg s =
     (let s1 = s\<lparr>total_page_faults := total_page_faults s + 1\<rparr>;
          p1 = proc\<lparr>page_faults := page_faults proc + 1\<rparr>;
          s2 = (if verbose flags then s1\<lparr>stdout := stdout s1 @ [PageFault]\<rparr> else s1)
      in if get_rss p1 < max_frames flags then
           (case free_frames s2 of
              [] \<Rightarrow> Inl EmptyFreeList
            | frame_index # _ \<Rightarrow>
                Inr (p1\<lparr>page_table := load_page (page_table p1) pg frame_index (time s2)\<rparr>,
                     s2\<lparr>free_frames := removeAll frame_index (free_frames s2),
                        frames := frames s2 @ [(pid, pg)]\<rparr>))
         else if strategy flags = FIFO then
           (let page_index = get_oldest_page (page_table p1)
            in Inr (p1\<lparr>page_table := replace_page (page_table p1) page_index pg (time s2)\<rparr>,
                    s2\<lparr>frames := frames s2 @ [(pid, pg)]\<rparr>))
         else
           (let page_index = get_least_recently_used_page (page_table p1)
            in Inr (p1\<lparr>page_table := replace_page (page_table p1) page_index pg (time s2)\<rparr>,
                    s2\<lparr>frames := frames s2 @ [(pid, pg)]\<rparr>)))"

text \<open>
  The end of \<^verbatim>\<open>perform_memory_access\<close>, after the hit or the fault: the physical
  address is built, and in verbose mode it is printed, the offset is checked and the
  resident-set size is printed. The offset check is inside the verbose block.
\<close>

definition finish_access ::
  "flag_options \<Rightarrow> virtual_address \<Rightarrow> process \<Rightarrow> simulation \<Rightarrow> outcome" where
  "finish_access flags va proc s =
     (let s1 = s\<lparr>processes := AList.update (process_id va) proc (processes s)\<rparr>
      in if verbose flags then
           (let s2 = s1\<lparr>stdout := stdout s1 @
                          [PrintPhysical (frame (page_table proc ! page va)) (offset va)]\<rparr>
            in if length (pages proc) \<le> page va then Undefined PageOutOfRange
               else if \<not> is_valid_offset (pages proc ! page va) (offset va) then
                 Exited InvalidOffset (s2\<lparr>stdout := stdout s2 @ [SegfaultInvalidOffset]\<rparr>)
               else Returned (s2\<lparr>stdout := stdout s2 @ [PrintRSS (get_rss proc)]\<rparr>))
         else Returned s1)"

definition perform_memory_access ::
  "flag_options \<Rightarrow> virtual_address \<Rightarrow> simulation \<Rightarrow> outcome" where
  "perform_memory_access flags va s =
     (let s0 = (if verbose flags then s\<lparr>stdout := stdout s @ [PrintAddress va]\<rparr> else s)
      in case map_of (processes s0) (process_id va) of
           None \<Rightarrow> Undefined NullProcess
         | Some proc0 \<Rightarrow>
             (let proc = proc0\<lparr>memory_accesses := memory_accesses proc0 + 1\<rparr>
              in if \<not> is_valid_page proc (page va) then
                   Exited InvalidPage
                     (s0\<lparr>processes := AList.update (process_id va) proc (processes s0),
                         stdout := stdout s0 @ [SegfaultInvalidPage]\<rparr>)
                 else if present (page_table proc ! page va) then
                   finish_access flags va
                     (proc\<lparr>page_table := touch_page (page_table proc) (page va) (time s0)\<rparr>)
                     (if verbose flags then s0\<lparr>stdout := stdout s0 @ [InMemory]\<rparr> else s0)
                 else
                   (case handle_page_fault flags (process_id va) proc (page va) s0 of
                      Inl u \<Rightarrow> Undefined u
                    | Inr (proc', s1) \<Rightarrow> finish_access flags va proc' s1)))"

text \<open>
  \<^verbatim>\<open>run\<close>: the pool of free frames is filled with 0 to 511, then the addresses are
  processed in order and the clock is incremented after each one. The declaration of the
  clock is in \<^verbatim>\<open>simulation.h\<close>, not among the sources; it is taken to be an
  \<^verbatim>\<open>int\<close>, the type in which \<^verbatim>\<open>page_table.cpp\<close> holds the timestamps copied from
  it, so incrementing it at \<^verbatim>\<open>INT_MAX\<close> is a signed overflow. The addresses, a
  member filled by the reader of the simulation file, are an argument here, and the
  summary printed at the end is left out.
\<close>

fun access_loop :: "flag_options \<Rightarrow> virtual_address list \<Rightarrow> simulation \<Rightarrow> outcome" where
  "access_loop flags [] s = Returned s"
| "access_loop flags (va # vas) s =
     (case perform_memory_access flags va s of
        Returned s' \<Rightarrow>
          (if time s' < INT_MAX then access_loop flags vas (s'\<lparr>time := time s' + 1\<rparr>)
           else Undefined ClockOverflow)
      | Exited f s' \<Rightarrow> Exited f s'
      | Undefined u \<Rightarrow> Undefined u)"

definition run :: "flag_options \<Rightarrow> virtual_address list \<Rightarrow> simulation \<Rightarrow> outcome" where
  "run flags vas s = access_loop flags vas (s\<lparr>free_frames := free_frames s @ [0..<512]\<rparr>)"

text \<open>
  The simulation as \<^verbatim>\<open>run\<close> finds it: the constructors of the processes and of the
  simulation are not among the sources, and the specification says that every entry of a
  new page table is non-present and that the pool is filled by \<^verbatim>\<open>run\<close>. The initial
  values of the counters, of the clock and of the fields of a non-present entry are left
  open; the clock is an \<^verbatim>\<open>int\<close>, so it is at most \<^verbatim>\<open>INT_MAX\<close>.
\<close>

definition unstarted :: "simulation \<Rightarrow> bool" where
  "unstarted s \<longleftrightarrow>
     free_frames s = [] \<and> time s \<le> INT_MAX \<and>
     (\<forall>(pid, p) \<in> set (processes s). \<forall>r \<in> set (page_table p). \<not> present r)"

section \<open>Quantities and invariants\<close>

text \<open>The sum of the resident-set sizes of all processes.\<close>

definition total_rss :: "simulation \<Rightarrow> nat" where
  "total_rss s = sum_list (map (\<lambda>(pid, p). get_rss p) (processes s))"

text \<open>
  What one access does to the page table of the addressed process and to the pool of
  free frames, read off \<^const>\<open>perform_memory_access\<close> and \<^const>\<open>handle_page_fault\<close>;
  \<open>None\<close> where the pool is empty and a frame is taken from it. It is used for the
  proofs only, and \<open>access_table_step\<close> below relates it to the two functions.
\<close>

definition table_step ::
  "flag_options \<Rightarrow> int \<Rightarrow> nat \<Rightarrow> row list \<Rightarrow> nat list \<Rightarrow> (row list \<times> nat list) option" where
  "table_step flags t pg rows free =
     (if \<not> pg < length rows then Some (rows, free)
      else if present (rows ! pg) then Some (touch_page rows pg t, free)
      else if get_present_page_count rows < max_frames flags then
        (case free of
           [] \<Rightarrow> None
         | f # _ \<Rightarrow> Some (load_page rows pg f t, removeAll f free))
      else if strategy flags = FIFO then
        Some (replace_page rows (get_oldest_page rows) pg t, free)
      else Some (replace_page rows (get_least_recently_used_page rows) pg t, free))"

text \<open>
  A page table is within a budget \<open>m\<close> before a time \<open>b\<close> when at most \<open>m\<close> entries
  are present and every present entry was loaded and last accessed before \<open>b\<close>.
\<close>

definition table_ok :: "nat \<Rightarrow> int \<Rightarrow> row list \<Rightarrow> bool" where
  "table_ok m b rows \<longleftrightarrow>
     get_present_page_count rows \<le> m \<and>
     (\<forall>r \<in> set rows. present r \<longrightarrow> loaded_at r < b \<and> last_accessed_at r < b)"

definition frames_ok :: "nat \<Rightarrow> int \<Rightarrow> simulation \<Rightarrow> bool" where
  "frames_ok m b s \<longleftrightarrow>
     distinct (free_frames s) \<and>
     (\<forall>(pid, p) \<in> set (processes s). table_ok m b (page_table p)) \<and>
     total_rss s + length (free_frames s) = NUM_FRAMES"

text \<open>
  Every entry was loaded no later than it was last accessed, and a present entry was
  loaded no later than \<open>b\<close>.
\<close>

definition table_ordered :: "int \<Rightarrow> row list \<Rightarrow> bool" where
  "table_ordered b rows \<longleftrightarrow>
     (\<forall>r \<in> set rows. loaded_at r \<le> last_accessed_at r \<and> (present r \<longrightarrow> loaded_at r \<le> b))"

definition entries_ordered :: "int \<Rightarrow> simulation \<Rightarrow> bool" where
  "entries_ordered b s \<longleftrightarrow> (\<forall>(pid, p) \<in> set (processes s). table_ordered b (page_table p))"

text \<open>Every entry of every process was loaded no later than it was last accessed.\<close>

definition loads_precede_accesses :: "simulation \<Rightarrow> bool" where
  "loads_precede_accesses s \<longleftrightarrow>
     (\<forall>(pid, p) \<in> set (processes s). \<forall>r \<in> set (page_table p).
        loaded_at r \<le> last_accessed_at r)"

text \<open>Every present entry was loaded and last accessed before \<open>b\<close>.\<close>

definition stamped_before :: "int \<Rightarrow> simulation \<Rightarrow> bool" where
  "stamped_before b s \<longleftrightarrow>
     (\<forall>(pid, p) \<in> set (processes s). \<forall>r \<in> set (page_table p).
        present r \<longrightarrow> loaded_at r < b \<and> last_accessed_at r < b)"

section \<open>Example inputs\<close>

text \<open>
  Concrete inputs on which the theorems below are instantiated: a simulation with one
  process, number 7, of two pages (64 and 10 bytes), as it is before \<^const>\<open>run\<close>, and
  the states it is in after two short traces.
\<close>

definition blank_row :: row where
  "blank_row = \<lparr>present = False, frame = 0, loaded_at = - 1, last_accessed_at = - 1\<rparr>"

definition two_page_process :: process where
  "two_page_process =
     \<lparr>page_table = [blank_row, blank_row], pages = [64, 10],
      memory_accesses = 0, page_faults = 0\<rparr>"

definition loaded_sim :: simulation where
  "loaded_sim =
     \<lparr>processes = [(7, two_page_process)], free_frames = [], frames = [],
      total_page_faults = 0, time = 0, stdout = []\<rparr>"

definition va_page :: "nat \<Rightarrow> virtual_address" where
  "va_page pg = \<lparr>process_id = 7, page = pg, offset = 0\<rparr>"

definition one_frame :: flag_options where
  "one_frame = \<lparr>verbose = True, max_frames = 1, strategy = FIFO\<rparr>"

text \<open>After the accesses to pages 0, 0 and 1 with one frame per process.\<close>

definition after_three_process :: process where
  "after_three_process =
     \<lparr>page_table =
        [\<lparr>present = False, frame = 0, loaded_at = 0, last_accessed_at = 1\<rparr>,
         \<lparr>present = True, frame = 0, loaded_at = 2, last_accessed_at = 2\<rparr>],
      pages = [64, 10], memory_accesses = 3, page_faults = 2\<rparr>"

definition after_three :: simulation where
  "after_three =
     \<lparr>processes = [(7, after_three_process)], free_frames = [1..<512],
      frames = [(7, 0), (7, 1)], total_page_faults = 2, time = 3,
      stdout =
        [PrintAddress (va_page 0), PageFault, PrintPhysical 0 0, PrintRSS 1,
         PrintAddress (va_page 0), InMemory, PrintPhysical 0 0, PrintRSS 1,
         PrintAddress (va_page 1), PageFault, PrintPhysical 0 0, PrintRSS 1]\<rparr>"

text \<open>A budget of no frame at all, and the state after one access to page 0 under it.\<close>

definition no_frame :: flag_options where
  "no_frame = \<lparr>verbose = False, max_frames = 0, strategy = FIFO\<rparr>"

definition over_budget_process :: process where
  "over_budget_process =
     \<lparr>page_table =
        [\<lparr>present = True, frame = 0, loaded_at = 0, last_accessed_at = 0\<rparr>, blank_row],
      pages = [64, 10], memory_accesses = 1, page_faults = 1\<rparr>"

definition over_budget :: simulation where
  "over_budget =
     \<lparr>processes = [(7, over_budget_process)], free_frames = [0..<512],
      frames = [(7, 0)], total_page_faults = 1, time = 1, stdout = []\<rparr>"









section \<open>Properties of the scans\<close>

lemma oldest_loop_scan: "oldest_loop rs i b t = min_scan loaded_at rs i b t"
  by (induction rs arbitrary: i b t) simp_all

lemma last_used_loop_scan: "last_used_loop rs i b t = min_scan last_accessed_at rs i b t"
  by (induction rs arbitrary: i b t) simp_all

lemma min_scan_none:
  "(\<And>r. r \<in> set rs \<Longrightarrow> present r \<Longrightarrow> \<not> key r < t) \<Longrightarrow> min_scan key rs i best t = best"
  by (induction rs arbitrary: i best t) auto

lemma min_scan_some:
  "\<exists>r \<in> set rs. present r \<and> key r < t \<Longrightarrow>
   \<exists>m < length rs. min_scan key rs i best t = i + m \<and> present (rs ! m) \<and> key (rs ! m) < t
      \<and> (\<forall>j < length rs. present (rs ! j) \<longrightarrow> key (rs ! m) \<le> key (rs ! j))
      \<and> (\<forall>j < m. present (rs ! j) \<longrightarrow> key (rs ! m) < key (rs ! j))"
proof (induction rs arbitrary: i best t)
  case Nil
  then show ?case by simp
next
  case (Cons r rs)
  show ?case
  proof (cases "key r < t \<and> present r")
    case True
    show ?thesis
    proof (cases "\<exists>q \<in> set rs. present q \<and> key q < key r")
      case below: True
      from Cons.IH [OF below, of "Suc i" i]
      obtain m where m: "m < length rs" "min_scan key rs (Suc i) i (key r) = Suc i + m"
        "present (rs ! m)" "key (rs ! m) < key r"
        "\<forall>j < length rs. present (rs ! j) \<longrightarrow> key (rs ! m) \<le> key (rs ! j)"
        "\<forall>j < m. present (rs ! j) \<longrightarrow> key (rs ! m) < key (rs ! j)"
        by blast
      have "Suc m < length (r # rs)" using m(1) by simp
      moreover have "min_scan key (r # rs) i best t = i + Suc m" using True m(2) by simp
      moreover have "present ((r # rs) ! Suc m)" using m(3) by simp
      moreover have "key ((r # rs) ! Suc m) < t" using m(4) True by simp
      moreover have "\<forall>j < length (r # rs). present ((r # rs) ! j) \<longrightarrow>
          key ((r # rs) ! Suc m) \<le> key ((r # rs) ! j)"
      proof (intro allI impI)
        fix j assume j: "j < length (r # rs)" "present ((r # rs) ! j)"
        show "key ((r # rs) ! Suc m) \<le> key ((r # rs) ! j)"
        proof (cases j)
          case 0
          then show ?thesis using m(4) by simp
        next
          case (Suc k)
          then show ?thesis using j m(5) by simp
        qed
      qed
      moreover have "\<forall>j < Suc m. present ((r # rs) ! j) \<longrightarrow>
          key ((r # rs) ! Suc m) < key ((r # rs) ! j)"
      proof (intro allI impI)
        fix j assume j: "j < Suc m" "present ((r # rs) ! j)"
        show "key ((r # rs) ! Suc m) < key ((r # rs) ! j)"
        proof (cases j)
          case 0
          then show ?thesis using m(4) by simp
        next
          case (Suc k)
          then show ?thesis using j m(6) by simp
        qed
      qed
      ultimately show ?thesis by blast
    next
      case none: False
      then have "min_scan key rs (Suc i) i (key r) = i"
        by (intro min_scan_none) blast
      then have res: "min_scan key (r # rs) i best t = i + 0" using True by simp
      have "\<forall>j < length (r # rs). present ((r # rs) ! j) \<longrightarrow> key ((r # rs) ! 0) \<le> key ((r # rs) ! j)"
      proof (intro allI impI)
        fix j assume j: "j < length (r # rs)" "present ((r # rs) ! j)"
        show "key ((r # rs) ! 0) \<le> key ((r # rs) ! j)"
        proof (cases j)
          case 0
          then show ?thesis by simp
        next
          case (Suc k)
          then have "rs ! k \<in> set rs" "present (rs ! k)" using j by simp_all
          then have "\<not> key (rs ! k) < key r" using none by blast
          then show ?thesis using Suc by simp
        qed
      qed
      then show ?thesis using res True by (intro exI [of _ 0]) simp
    qed
  next
    case False
    then have cand: "\<exists>q \<in> set rs. present q \<and> key q < t" using Cons.prems by auto
    from Cons.IH [OF cand, of "Suc i" best]
    obtain m where m: "m < length rs" "min_scan key rs (Suc i) best t = Suc i + m"
      "present (rs ! m)" "key (rs ! m) < t"
      "\<forall>j < length rs. present (rs ! j) \<longrightarrow> key (rs ! m) \<le> key (rs ! j)"
      "\<forall>j < m. present (rs ! j) \<longrightarrow> key (rs ! m) < key (rs ! j)"
      by blast
    have r: "present r \<Longrightarrow> key (rs ! m) < key r" using False m(4) by auto
    have "Suc m < length (r # rs)" using m(1) by simp
    moreover have "min_scan key (r # rs) i best t = i + Suc m" using False m(2) by auto
    moreover have "present ((r # rs) ! Suc m)" using m(3) by simp
    moreover have "key ((r # rs) ! Suc m) < t" using m(4) by simp
    moreover have "\<forall>j < length (r # rs). present ((r # rs) ! j) \<longrightarrow>
        key ((r # rs) ! Suc m) \<le> key ((r # rs) ! j)"
    proof (intro allI impI)
      fix j assume j: "j < length (r # rs)" "present ((r # rs) ! j)"
      show "key ((r # rs) ! Suc m) \<le> key ((r # rs) ! j)"
      proof (cases j)
        case 0
        then show ?thesis using r j by simp
      next
        case (Suc k)
        then show ?thesis using j m(5) by simp
      qed
    qed
    moreover have "\<forall>j < Suc m. present ((r # rs) ! j) \<longrightarrow>
        key ((r # rs) ! Suc m) < key ((r # rs) ! j)"
    proof (intro allI impI)
      fix j assume j: "j < Suc m" "present ((r # rs) ! j)"
      show "key ((r # rs) ! Suc m) < key ((r # rs) ! j)"
      proof (cases j)
        case 0
        then show ?thesis using r j by simp
      next
        case (Suc k)
        then show ?thesis using j m(6) by simp
      qed
    qed
    ultimately show ?thesis by blast
  qed
qed

section \<open>Counting present entries\<close>

lemma count_present_filter: "count_present rs n = n + length (filter present rs)"
  by (induction rs arbitrary: n) simp_all

lemma present_count_filter: "get_present_page_count rows = length (filter present rows)"
  by (simp add: get_present_page_count_def count_present_filter)

lemma filter_length_update:
  "i < length xs \<Longrightarrow>
   length (filter P (xs[i := v])) + (if P (xs ! i) then 1 else 0)
     = length (filter P xs) + (if P v then 1 else 0)"
proof (induction xs arbitrary: i)
  case Nil
  then show ?case by simp
next
  case (Cons x xs)
  then show ?case by (cases i) auto
qed

lemma present_count_touch:
  assumes "pg < length rows"
  shows "get_present_page_count (touch_page rows pg t) = get_present_page_count rows"
  using filter_length_update [OF assms, of present "(rows ! pg)\<lparr>last_accessed_at := t\<rparr>"]
  by (simp add: present_count_filter touch_page_def split: if_splits)

lemma present_count_load:
  assumes "pg < length rows" "\<not> present (rows ! pg)"
  shows "get_present_page_count (load_page rows pg f t) = Suc (get_present_page_count rows)"
  using filter_length_update [OF assms(1), of present
      "(rows ! pg)\<lparr>frame := f, present := True, loaded_at := t, last_accessed_at := t\<rparr>"] assms(2)
  by (simp add: present_count_filter load_page_def)

lemma present_count_evict:
  assumes "v < length rows" "present (rows ! v)"
  shows "Suc (get_present_page_count (rows[v := (rows ! v)\<lparr>present := False\<rparr>]))
           = get_present_page_count rows"
  using filter_length_update [OF assms(1), of present "(rows ! v)\<lparr>present := False\<rparr>"] assms(2)
  by (simp add: present_count_filter)

lemma present_count_replace:
  assumes "pg < length rows" "\<not> present (rows ! pg)" "v < length rows" "present (rows ! v)"
  shows "get_present_page_count (replace_page rows v pg t) = get_present_page_count rows"
proof -
  let ?rows1 = "rows[v := (rows ! v)\<lparr>present := False\<rparr>]"
  have ne: "v \<noteq> pg" using assms by auto
  have "pg < length ?rows1" "\<not> present (?rows1 ! pg)" using assms ne by simp_all
  then have "get_present_page_count (load_page ?rows1 pg (frame (?rows1 ! v)) t)
      = Suc (get_present_page_count ?rows1)"
    by (rule present_count_load)
  then show ?thesis using present_count_evict [OF assms(3,4)]
    by (simp add: replace_page_def Let_def)
qed

section \<open>One access, seen from the page table\<close>

lemma sum_list_update:
  "map_of al k = Some v \<Longrightarrow>
   sum_list (map (\<lambda>(k, x). f x) (AList.update k v' al)) + f v
     = sum_list (map (\<lambda>(k, x). f x) al) + (f v' :: nat)"
  by (induction al) (auto split: if_splits)

lemma set_update_cases:
  "(k', x) \<in> set (AList.update k v al) \<Longrightarrow> (k' = k \<and> x = v) \<or> (k', x) \<in> set al"
  by (induction al) (auto split: if_splits)

lemma handle_page_fault_step:
  assumes "handle_page_fault flags pid p pg s = Inr (p', s')"
    and "pg < length (page_table p)" "\<not> present (page_table p ! pg)"
  shows "processes s' = processes s \<and> time s' = time s
     \<and> table_step flags (time s) pg (page_table p) (free_frames s)
         = Some (page_table p', free_frames s')"
  using assms
  by (auto simp: handle_page_fault_def Let_def table_step_def get_rss_def
      split: if_splits list.splits)

lemma finish_access_state:
  assumes "state_of (finish_access flags va p s) = Some s'"
  shows "processes s' = AList.update (process_id va) p (processes s)
     \<and> time s' = time s \<and> free_frames s' = free_frames s"
  using assms by (auto simp: finish_access_def Let_def split: if_splits)

lemma access_table_step:
  assumes "state_of (perform_memory_access flags va s) = Some s'"
  shows "\<exists>p p'. map_of (processes s) (process_id va) = Some p
           \<and> processes s' = AList.update (process_id va) p' (processes s)
           \<and> time s' = time s
           \<and> table_step flags (time s) (page va) (page_table p) (free_frames s)
               = Some (page_table p', free_frames s')"
proof -
  let ?s0 = "if verbose flags then s\<lparr>stdout := stdout s @ [PrintAddress va]\<rparr> else s"
  have s0: "processes ?s0 = processes s" "time ?s0 = time s" "free_frames ?s0 = free_frames s"
    by simp_all
  from assms obtain p0 where p0: "map_of (processes s) (process_id va) = Some p0"
    by (cases "map_of (processes s) (process_id va)")
       (auto simp: perform_memory_access_def Let_def split: if_splits)
  let ?p = "p0\<lparr>memory_accesses := memory_accesses p0 + 1\<rparr>"
  show ?thesis
  proof (cases "is_valid_page ?p (page va)")
    case False
    then have "perform_memory_access flags va s = Exited InvalidPage
        (?s0\<lparr>processes := AList.update (process_id va) ?p (processes ?s0),
              stdout := stdout ?s0 @ [SegfaultInvalidPage]\<rparr>)"
      using p0 by (simp add: perform_memory_access_def Let_def)
    with assms have "s' = ?s0\<lparr>processes := AList.update (process_id va) ?p (processes ?s0),
              stdout := stdout ?s0 @ [SegfaultInvalidPage]\<rparr>" by simp
    then have "processes s' = AList.update (process_id va) ?p (processes s)"
      "time s' = time s" "free_frames s' = free_frames s" by simp_all
    moreover have "table_step flags (time s) (page va) (page_table p0) (free_frames s)
        = Some (page_table ?p, free_frames s)"
      using False by (simp add: table_step_def is_valid_page_def)
    ultimately show ?thesis using p0 by auto
  next
    case valid: True
    then have len: "page va < length (page_table p0)" by (simp add: is_valid_page_def)
    show ?thesis
    proof (cases "present (page_table p0 ! page va)")
      case True
      let ?p' = "?p\<lparr>page_table := touch_page (page_table ?p) (page va) (time ?s0)\<rparr>"
      let ?s1 = "if verbose flags then ?s0\<lparr>stdout := stdout ?s0 @ [InMemory]\<rparr> else ?s0"
      have "perform_memory_access flags va s = finish_access flags va ?p' ?s1"
        using p0 valid True by (simp add: perform_memory_access_def Let_def)
      with assms have "state_of (finish_access flags va ?p' ?s1) = Some s'" by simp
      from finish_access_state [OF this]
      have "processes s' = AList.update (process_id va) ?p' (processes s)"
        "time s' = time s" "free_frames s' = free_frames s" by (simp_all split: if_splits)
      moreover have "table_step flags (time s) (page va) (page_table p0) (free_frames s)
        = Some (page_table ?p', free_frames s)"
        using True len by (simp add: table_step_def)
      ultimately show ?thesis using p0 by auto
    next
      case False
      have eq: "perform_memory_access flags va s =
          (case handle_page_fault flags (process_id va) ?p (page va) ?s0 of
             Inl u \<Rightarrow> Undefined u
           | Inr (proc', s1) \<Rightarrow> finish_access flags va proc' s1)"
        using p0 valid False by (simp add: perform_memory_access_def Let_def)
      with assms obtain p' s1 where
        h: "handle_page_fault flags (process_id va) ?p (page va) ?s0 = Inr (p', s1)"
        and f: "state_of (finish_access flags va p' s1) = Some s'"
        by (auto split: sum.splits)
      from handle_page_fault_step [OF h] len False
      have h': "processes s1 = processes s" "time s1 = time s"
        "table_step flags (time s) (page va) (page_table p0) (free_frames s)
           = Some (page_table p', free_frames s1)"
        by (simp_all split: if_splits)
      from finish_access_state [OF f] h'
      show ?thesis using p0 by auto
    qed
  qed
qed

section \<open>The victim is a resident page\<close>

lemma min_scan_range:
  "min_scan key rs i best t = best \<or> (\<exists>m < length rs. min_scan key rs i best t = i + m)"
proof (cases "\<exists>r \<in> set rs. present r \<and> key r < t")
  case True
  from min_scan_some [OF this, of i best] show ?thesis by blast
next
  case False
  then have "min_scan key rs i best t = best" by (intro min_scan_none) blast
  then show ?thesis by simp
qed

lemma get_oldest_page_in_range: "rows \<noteq> [] \<Longrightarrow> get_oldest_page rows < length rows"
  using min_scan_range [of loaded_at rows 0 0 INT_MAX]
  by (auto simp: get_oldest_page_def oldest_loop_scan)

lemma get_least_recently_used_page_in_range:
  "rows \<noteq> [] \<Longrightarrow> get_least_recently_used_page rows < length rows"
  using min_scan_range [of last_accessed_at rows 0 0 INT_MAX]
  by (auto simp: get_least_recently_used_page_def last_used_loop_scan)

lemma get_oldest_page_present:
  assumes "\<exists>r \<in> set rows. present r \<and> loaded_at r < INT_MAX"
  shows "get_oldest_page rows < length rows \<and> present (rows ! get_oldest_page rows)"
  using min_scan_some [OF assms, of 0 0]
  by (auto simp: get_oldest_page_def oldest_loop_scan)

lemma get_least_recently_used_page_present:
  assumes "\<exists>r \<in> set rows. present r \<and> last_accessed_at r < INT_MAX"
  shows "get_least_recently_used_page rows < length rows
     \<and> present (rows ! get_least_recently_used_page rows)"
  using min_scan_some [OF assms, of 0 0]
  by (auto simp: get_least_recently_used_page_def last_used_loop_scan)

lemma present_entry_exists:
  "0 < get_present_page_count rows \<Longrightarrow> \<exists>r \<in> set rows. present r"
  by (auto simp: present_count_filter filter_empty_conv)

lemma in_set_update: "r \<in> set (xs[i := v]) \<Longrightarrow> r = v \<or> r \<in> set xs"
  using set_update_subset_insert [of xs i v] by auto

lemma table_ok_mono: "table_ok m b rows \<Longrightarrow> b \<le> b' \<Longrightarrow> table_ok m b' rows"
  by (fastforce simp: table_ok_def)

lemma table_ok_touch:
  assumes "table_ok m t rows" "pg < length rows"
  shows "table_ok m (t + 1) (touch_page rows pg t)"
proof -
  have "rows ! pg \<in> set rows" using assms(2) by simp
  then show ?thesis using assms present_count_touch [OF assms(2), of t]
    by (auto simp: table_ok_def touch_page_def dest!: in_set_update)
qed

lemma table_ok_load:
  assumes "table_ok m t rows" "pg < length rows" "\<not> present (rows ! pg)"
    "get_present_page_count rows < m"
  shows "table_ok m (t + 1) (load_page rows pg f t)"
  using assms present_count_load [OF assms(2,3), of f t]
  by (auto simp: table_ok_def load_page_def dest!: in_set_update)

lemma table_ok_replace:
  assumes "table_ok m t rows" "pg < length rows" "\<not> present (rows ! pg)"
    "v < length rows" "present (rows ! v)"
  shows "table_ok m (t + 1) (replace_page rows v pg t)"
  using assms present_count_replace [OF assms(2,3,4,5), of t]
  by (auto simp: table_ok_def replace_page_def load_page_def Let_def dest!: in_set_update)

lemma victim_present:
  assumes "table_ok m t rows" "t \<le> INT_MAX" "0 < m" "\<not> get_present_page_count rows < m"
  shows "get_oldest_page rows < length rows \<and> present (rows ! get_oldest_page rows)"
    and "get_least_recently_used_page rows < length rows
       \<and> present (rows ! get_least_recently_used_page rows)"
proof -
  from assms(3,4) have "0 < get_present_page_count rows" by simp
  then obtain r where r: "r \<in> set rows" "present r" using present_entry_exists by blast
  then have "loaded_at r < INT_MAX" "last_accessed_at r < INT_MAX"
    using assms(1,2) by (auto simp: table_ok_def)
  with r have a: "\<exists>r \<in> set rows. present r \<and> loaded_at r < INT_MAX"
    and b: "\<exists>r \<in> set rows. present r \<and> last_accessed_at r < INT_MAX" by blast+
  show "get_oldest_page rows < length rows \<and> present (rows ! get_oldest_page rows)"
    using a by (rule get_oldest_page_present)
  show "get_least_recently_used_page rows < length rows
       \<and> present (rows ! get_least_recently_used_page rows)"
    using b by (rule get_least_recently_used_page_present)
qed

lemma table_step_ok:
  assumes step: "table_step flags t pg rows free = Some (rows', free')"
    and ok: "table_ok (max_frames flags) t rows" and m: "0 < max_frames flags"
    and t: "t \<le> INT_MAX" and d: "distinct free"
  shows "table_ok (max_frames flags) (t + 1) rows' \<and> distinct free'
     \<and> get_present_page_count rows' + length free' = get_present_page_count rows + length free"
proof (cases "pg < length rows")
  case False
  then show ?thesis using step ok d by (auto simp: table_step_def intro: table_ok_mono)
next
  case len: True
  show ?thesis
  proof (cases "present (rows ! pg)")
    case True
    then show ?thesis using step len d table_ok_touch [OF ok len] present_count_touch [OF len, of t]
      by (auto simp: table_step_def)
  next
    case absent: False
    show ?thesis
    proof (cases "get_present_page_count rows < max_frames flags")
      case True
      from step len absent True obtain f rest where free: "free = f # rest"
        and res: "rows' = load_page rows pg f t" "free' = removeAll f free"
        by (auto simp: table_step_def split: list.splits)
      have "free' = rest" using free res(2) d by simp
      then show ?thesis
        using free d res(1) table_ok_load [OF ok len absent True, of f]
          present_count_load [OF len absent, of f t]
        by simp
    next
      case False
      note v = victim_present [OF ok t m False]
      show ?thesis
      proof (cases "strategy flags = FIFO")
        case True
        then have "rows' = replace_page rows (get_oldest_page rows) pg t" "free' = free"
          using step len absent False by (auto simp: table_step_def)
        then show ?thesis
          using d v(1) table_ok_replace [OF ok len absent, of "get_oldest_page rows"]
            present_count_replace [OF len absent, of "get_oldest_page rows" t]
          by simp
      next
        case False
        then have "rows' = replace_page rows (get_least_recently_used_page rows) pg t"
          "free' = free"
          using step len absent \<open>\<not> get_present_page_count rows < max_frames flags\<close>
          by (auto simp: table_step_def)
        then show ?thesis
          using d v(2)
            table_ok_replace [OF ok len absent, of "get_least_recently_used_page rows"]
            present_count_replace [OF len absent, of "get_least_recently_used_page rows" t]
          by simp
      qed
    qed
  qed
qed

section \<open>Frame accounting is preserved\<close>

lemma frames_ok_time [simp]: "frames_ok m b (s\<lparr>time := x\<rparr>) = frames_ok m b s"
  by (simp add: frames_ok_def total_rss_def)

lemma frames_ok_mono: "frames_ok m b s \<Longrightarrow> b \<le> b' \<Longrightarrow> frames_ok m b' s"
  by (auto simp: frames_ok_def intro: table_ok_mono)

lemma access_frames_ok:
  assumes acc: "state_of (perform_memory_access flags va s) = Some s'"
    and ok: "frames_ok (max_frames flags) (time s) s"
    and m: "0 < max_frames flags" and t: "time s \<le> INT_MAX"
  shows "frames_ok (max_frames flags) (time s + 1) s' \<and> time s' = time s"
proof -
  from access_table_step [OF acc] obtain p p' where
    p: "map_of (processes s) (process_id va) = Some p"
    and upd: "processes s' = AList.update (process_id va) p' (processes s)"
    and time: "time s' = time s"
    and step: "table_step flags (time s) (page va) (page_table p) (free_frames s)
               = Some (page_table p', free_frames s')"
    by blast
  from p have mem: "(process_id va, p) \<in> set (processes s)" by (rule map_of_SomeD)
  with ok have okp: "table_ok (max_frames flags) (time s) (page_table p)"
    and d: "distinct (free_frames s)"
    and total: "total_rss s + length (free_frames s) = NUM_FRAMES"
    by (auto simp: frames_ok_def)
  from table_step_ok [OF step okp m t d]
  have okp': "table_ok (max_frames flags) (time s + 1) (page_table p')"
    and d': "distinct (free_frames s')"
    and cnt: "get_present_page_count (page_table p') + length (free_frames s')
        = get_present_page_count (page_table p) + length (free_frames s)"
    by simp_all
  have tabs: "\<forall>(pid, q) \<in> set (processes s'). table_ok (max_frames flags) (time s + 1) (page_table q)"
  proof (clarify)
    fix pid q assume "(pid, q) \<in> set (processes s')"
    then have "(pid = process_id va \<and> q = p') \<or> (pid, q) \<in> set (processes s)"
      unfolding upd by (rule set_update_cases)
    then show "table_ok (max_frames flags) (time s + 1) (page_table q)"
      using okp' ok by (auto simp: frames_ok_def intro: table_ok_mono)
  qed
  from sum_list_update [OF p, of get_rss p']
  have "total_rss s' + get_rss p = total_rss s + get_rss p'"
    by (simp add: total_rss_def upd)
  with cnt total have "total_rss s' + length (free_frames s') = NUM_FRAMES"
    by (simp add: get_rss_def)
  with tabs d' time show ?thesis by (simp add: frames_ok_def)
qed

lemma loop_frames_ok:
  assumes "state_of (access_loop flags vas s) = Some s'"
    and "frames_ok (max_frames flags) (time s) s"
    and "0 < max_frames flags" and "time s \<le> INT_MAX"
  shows "frames_ok (max_frames flags) (time s' + 1) s'
     \<and> (access_loop flags vas s = Returned s' \<longrightarrow>
          frames_ok (max_frames flags) (time s') s' \<and> time s' \<le> INT_MAX)"
  using assms
proof (induction vas arbitrary: s)
  case Nil
  then show ?case by (auto intro: frames_ok_mono)
next
  case (Cons va vas)
  show ?case
  proof (cases "perform_memory_access flags va s")
    case (Returned s1)
    then have "state_of (perform_memory_access flags va s) = Some s1" by simp
    from access_frames_ok [OF this Cons.prems(2,3,4)]
    have ok1: "frames_ok (max_frames flags) (time s + 1) s1" and t1: "time s1 = time s" by simp_all
    from Cons.prems(1) Returned have lt: "time s1 < INT_MAX"
      by (auto split: if_splits)
    let ?s2 = "s1\<lparr>time := time s1 + 1\<rparr>"
    have loop: "access_loop flags (va # vas) s = access_loop flags vas ?s2"
      using Returned lt by simp
    have "frames_ok (max_frames flags) (time ?s2) ?s2" using ok1 t1 by simp
    moreover have "time ?s2 \<le> INT_MAX" using lt by simp
    moreover have "state_of (access_loop flags vas ?s2) = Some s'"
      using Cons.prems(1) loop by simp
    ultimately show ?thesis using Cons.IH [of ?s2] Cons.prems(3) loop by simp
  next
    case (Exited f s1)
    then have "state_of (perform_memory_access flags va s) = Some s1" by simp
    from access_frames_ok [OF this Cons.prems(2,3,4)] Exited Cons.prems(1)
    show ?thesis by simp
  next
    case (Undefined u)
    then show ?thesis using Cons.prems(1) by simp
  qed
qed

lemma present_count_none:
  "\<forall>r \<in> set rows. \<not> present r \<Longrightarrow> get_present_page_count rows = 0"
  by (simp add: present_count_filter filter_empty_conv)

lemma total_rss_none:
  "\<forall>(pid, p) \<in> set (processes s). \<forall>r \<in> set (page_table p). \<not> present r \<Longrightarrow> total_rss s = 0"
  by (auto simp: total_rss_def get_rss_def present_count_none)

lemma unstarted_frames_ok:
  assumes "unstarted s"
  shows "frames_ok m (time s) (s\<lparr>free_frames := free_frames s @ [0..<512]\<rparr>)"
proof -
  let ?s = "s\<lparr>free_frames := free_frames s @ [0..<512]\<rparr>"
  have "total_rss ?s = 0" using assms by (intro total_rss_none) (simp add: unstarted_def)
  moreover have "\<forall>(pid, p) \<in> set (processes ?s). table_ok m (time s) (page_table p)"
    using assms by (auto simp: unstarted_def table_ok_def present_count_none)
  ultimately show ?thesis using assms by (simp add: frames_ok_def unstarted_def NUM_FRAMES_def)
qed

lemma run_frames_ok:
  assumes "state_of (run flags vas s) = Some s'" "unstarted s" "0 < max_frames flags"
  shows "frames_ok (max_frames flags) (time s' + 1) s'
     \<and> (run flags vas s = Returned s' \<longrightarrow>
          frames_ok (max_frames flags) (time s') s' \<and> time s' \<le> INT_MAX)"
proof -
  let ?s = "s\<lparr>free_frames := free_frames s @ [0..<512]\<rparr>"
  have "frames_ok (max_frames flags) (time ?s) ?s" using unstarted_frames_ok [OF assms(2)] by simp
  moreover have "time ?s \<le> INT_MAX" using assms(2) by (simp add: unstarted_def)
  moreover have "state_of (access_loop flags vas ?s) = Some s'" using assms(1) by (simp add: run_def)
  ultimately show ?thesis using loop_frames_ok [of flags vas ?s s'] assms(3) by (simp add: run_def)
qed

text \<open>
  The two kinds of page fault, counted: a fault of a process under its budget adds one
  present entry and takes one frame from the pool; a fault of a process at its budget
  changes neither the number of present entries nor the pool.
\<close>

lemma fault_frame_counts:
  assumes fault: "handle_page_fault flags pid p pg s = Inr (p', s')"
    and pg: "pg < length (page_table p)" "\<not> present (page_table p ! pg)"
    and ok: "table_ok (max_frames flags) (time s) (page_table p)" "distinct (free_frames s)"
    and m: "0 < max_frames flags" and t: "time s \<le> INT_MAX"
  shows "(get_rss p < max_frames flags \<longrightarrow>
           get_rss p' = Suc (get_rss p) \<and> Suc (length (free_frames s')) = length (free_frames s))
     \<and> (\<not> get_rss p < max_frames flags \<longrightarrow>
           get_rss p' = get_rss p \<and> free_frames s' = free_frames s)"
proof (cases "get_rss p < max_frames flags")
  case True
  with fault obtain f rest where free: "free_frames s = f # rest"
    and res: "page_table p' = load_page (page_table p) pg f (time s)"
      "free_frames s' = removeAll f (free_frames s)"
    by (auto simp: handle_page_fault_def Let_def get_rss_def split: list.splits if_splits)
  have "free_frames s' = rest" using free res(2) ok(2) by simp
  then show ?thesis
    using True free res(1) present_count_load [OF pg, of f "time s"] by (simp add: get_rss_def)
next
  case False
  then have full: "\<not> get_present_page_count (page_table p) < max_frames flags"
    by (simp add: get_rss_def)
  note v = victim_present [OF ok(1) t m full]
  from fault False have res: "free_frames s' = free_frames s"
    "page_table p' = replace_page (page_table p)
       (if strategy flags = FIFO then get_oldest_page (page_table p)
        else get_least_recently_used_page (page_table p)) pg (time s)"
    by (auto simp: handle_page_fault_def Let_def get_rss_def split: if_splits)
  have "get_present_page_count (page_table p') = get_present_page_count (page_table p)"
    unfolding res(2) using v by (intro present_count_replace [OF pg]) (simp_all split: if_splits)
  then show ?thesis using False res(1) by (simp add: get_rss_def)
qed

section \<open>Load time before access time\<close>

lemma table_ordered_mono: "table_ordered b rows \<Longrightarrow> b \<le> b' \<Longrightarrow> table_ordered b' rows"
  by (fastforce simp: table_ordered_def)

lemma table_ordered_touch:
  assumes "table_ordered t rows" "pg < length rows" "present (rows ! pg)"
  shows "table_ordered t (touch_page rows pg t)"
proof -
  have "rows ! pg \<in> set rows" using assms(2) by simp
  then show ?thesis using assms
    by (auto simp: table_ordered_def touch_page_def dest!: in_set_update)
qed

lemma table_ordered_load:
  assumes "table_ordered t rows"
  shows "table_ordered t (load_page rows pg f t)"
  using assms by (auto simp: table_ordered_def load_page_def dest!: in_set_update)

lemma table_ordered_evict:
  assumes "table_ordered t rows" "v < length rows"
  shows "table_ordered t (rows[v := (rows ! v)\<lparr>present := False\<rparr>])"
proof -
  have "rows ! v \<in> set rows" using assms(2) by simp
  then show ?thesis using assms(1)
    by (auto simp: table_ordered_def dest!: in_set_update)
qed

lemma table_ordered_replace:
  assumes "table_ordered t rows" "v < length rows"
  shows "table_ordered t (replace_page rows v pg t)"
  using table_ordered_load [OF table_ordered_evict [OF assms]]
  by (simp add: replace_page_def Let_def)

lemma table_step_ordered:
  assumes step: "table_step flags t pg rows free = Some (rows', free')"
    and ord: "table_ordered t rows"
  shows "table_ordered t rows'"
proof (cases "pg < length rows")
  case False
  then show ?thesis using step ord by (simp add: table_step_def)
next
  case True
  then have ne: "rows \<noteq> []" by auto
  note r = get_oldest_page_in_range [OF ne] get_least_recently_used_page_in_range [OF ne]
  show ?thesis
    using step True table_ordered_touch [OF ord True] table_ordered_load [OF ord]
      table_ordered_replace [OF ord r(1)] table_ordered_replace [OF ord r(2)]
    by (auto simp: table_step_def split: if_splits list.splits)
qed

lemma entries_ordered_time [simp]: "entries_ordered b (s\<lparr>time := x\<rparr>) = entries_ordered b s"
  by (simp add: entries_ordered_def)

lemma entries_ordered_mono: "entries_ordered b s \<Longrightarrow> b \<le> b' \<Longrightarrow> entries_ordered b' s"
  by (auto simp: entries_ordered_def intro: table_ordered_mono)

lemma access_entries_ordered:
  assumes acc: "state_of (perform_memory_access flags va s) = Some s'"
    and ord: "entries_ordered (time s) s"
  shows "entries_ordered (time s) s' \<and> time s' = time s"
proof -
  from access_table_step [OF acc] obtain p p' where
    p: "map_of (processes s) (process_id va) = Some p"
    and upd: "processes s' = AList.update (process_id va) p' (processes s)"
    and time: "time s' = time s"
    and step: "table_step flags (time s) (page va) (page_table p) (free_frames s)
               = Some (page_table p', free_frames s')"
    by blast
  from p have "(process_id va, p) \<in> set (processes s)" by (rule map_of_SomeD)
  with ord have "table_ordered (time s) (page_table p)" by (auto simp: entries_ordered_def)
  from table_step_ordered [OF step this] have p': "table_ordered (time s) (page_table p')" .
  have "\<forall>(pid, q) \<in> set (processes s'). table_ordered (time s) (page_table q)"
  proof (clarify)
    fix pid q assume "(pid, q) \<in> set (processes s')"
    then have "(pid = process_id va \<and> q = p') \<or> (pid, q) \<in> set (processes s)"
      unfolding upd by (rule set_update_cases)
    then show "table_ordered (time s) (page_table q)"
      using p' ord by (auto simp: entries_ordered_def)
  qed
  then show ?thesis using time by (simp add: entries_ordered_def)
qed

lemma loop_entries_ordered:
  assumes "state_of (access_loop flags vas s) = Some s'" and "entries_ordered (time s) s"
  shows "entries_ordered (time s') s'"
  using assms
proof (induction vas arbitrary: s)
  case Nil
  then show ?case by simp
next
  case (Cons va vas)
  show ?case
  proof (cases "perform_memory_access flags va s")
    case (Returned s1)
    then have "state_of (perform_memory_access flags va s) = Some s1" by simp
    from access_entries_ordered [OF this Cons.prems(2)]
    have ord1: "entries_ordered (time s1) s1" by simp
    let ?s2 = "s1\<lparr>time := time s1 + 1\<rparr>"
    have "entries_ordered (time ?s2) ?s2" using entries_ordered_mono [OF ord1, of "time s1 + 1"] by simp
    moreover have "state_of (access_loop flags vas ?s2) = Some s'"
      using Cons.prems(1) Returned by (simp split: if_splits)
    ultimately show ?thesis by (rule Cons.IH [rotated])
  next
    case (Exited f s1)
    then have "state_of (perform_memory_access flags va s) = Some s1" by simp
    from access_entries_ordered [OF this Cons.prems(2)] Exited Cons.prems(1)
    show ?thesis by simp
  next
    case (Undefined u)
    then show ?thesis using Cons.prems(1) by simp
  qed
qed

section \<open>One frame per process: both strategies pick the same page\<close>

lemma single_present_index:
  "length (filter P xs) \<le> 1 \<Longrightarrow> i < length xs \<Longrightarrow> j < length xs \<Longrightarrow> P (xs ! i) \<Longrightarrow> P (xs ! j)
   \<Longrightarrow> i = j"
proof (induction xs arbitrary: i j)
  case Nil
  then show ?case by simp
next
  case (Cons x xs)
  have none: "P x \<Longrightarrow> k < length xs \<Longrightarrow> P (xs ! k) \<Longrightarrow> False" for k
  proof -
    assume "P x" "k < length xs" "P (xs ! k)"
    then have "xs ! k \<in> set (filter P xs)" by simp
    then have "0 < length (filter P xs)" by (auto simp: length_pos_if_in_set simp del: set_filter)
    with \<open>P x\<close> Cons.prems(1) show False by simp
  qed
  show ?case
  proof (cases i; cases j)
    fix i' j' assume ij: "i = Suc i'" "j = Suc j'"
    have "length (filter P xs) \<le> 1" using Cons.prems(1) by (simp split: if_splits)
    from Cons.IH [OF this, of i' j'] Cons.prems ij show ?thesis by simp
  qed (use Cons.prems none in auto)
qed

lemma single_resident_victims:
  assumes "table_ok 1 t rows" "t \<le> INT_MAX"
  shows "get_oldest_page rows = get_least_recently_used_page rows"
proof (cases "\<exists>r \<in> set rows. present r")
  case False
  then have "min_scan loaded_at rows 0 0 INT_MAX = 0" "min_scan last_accessed_at rows 0 0 INT_MAX = 0"
    by (auto intro: min_scan_none)
  then show ?thesis
    by (simp add: get_oldest_page_def get_least_recently_used_page_def oldest_loop_scan
        last_used_loop_scan)
next
  case True
  then obtain r where r: "r \<in> set rows" "present r" by blast
  then have "loaded_at r < INT_MAX" "last_accessed_at r < INT_MAX"
    using assms by (auto simp: table_ok_def)
  with r have a: "\<exists>r \<in> set rows. present r \<and> loaded_at r < INT_MAX"
    and b: "\<exists>r \<in> set rows. present r \<and> last_accessed_at r < INT_MAX" by blast+
  note fifo = get_oldest_page_present [OF a]
  note lru = get_least_recently_used_page_present [OF b]
  have "length (filter present rows) \<le> 1" using assms(1) by (simp add: table_ok_def present_count_filter)
  then show ?thesis using fifo lru by (intro single_present_index [of present rows]) simp_all
qed

lemma handle_page_fault_strategy:
  assumes "get_oldest_page (page_table p) = get_least_recently_used_page (page_table p)"
  shows "handle_page_fault (flags\<lparr>strategy := FIFO\<rparr>) pid p pg s
       = handle_page_fault (flags\<lparr>strategy := LRU\<rparr>) pid p pg s"
  using assms by (simp add: handle_page_fault_def Let_def get_rss_def)

lemma finish_access_strategy:
  "finish_access (flags\<lparr>strategy := x\<rparr>) va p s = finish_access flags va p s"
  by (simp add: finish_access_def)

lemma access_strategy:
  assumes "\<And>p. map_of (processes s) (process_id va) = Some p \<Longrightarrow>
    get_oldest_page (page_table p) = get_least_recently_used_page (page_table p)"
  shows "perform_memory_access (flags\<lparr>strategy := FIFO\<rparr>) va s
       = perform_memory_access (flags\<lparr>strategy := LRU\<rparr>) va s"
proof (cases "map_of (processes s) (process_id va)")
  case None
  then show ?thesis by (simp add: perform_memory_access_def Let_def)
next
  case (Some p)
  show ?thesis using Some assms [OF Some]
    by (simp add: perform_memory_access_def Let_def handle_page_fault_strategy
        finish_access_strategy split: sum.splits prod.splits)
qed

lemma loop_strategy:
  assumes "frames_ok 1 (time s) s" "time s \<le> INT_MAX" "max_frames flags = 1"
  shows "access_loop (flags\<lparr>strategy := FIFO\<rparr>) vas s = access_loop (flags\<lparr>strategy := LRU\<rparr>) vas s"
  using assms(1,2)
proof (induction vas arbitrary: s)
  case Nil
  then show ?case by simp
next
  case (Cons va vas)
  have eq: "perform_memory_access (flags\<lparr>strategy := FIFO\<rparr>) va s
       = perform_memory_access (flags\<lparr>strategy := LRU\<rparr>) va s"
  proof (rule access_strategy)
    fix p assume "map_of (processes s) (process_id va) = Some p"
    then have "(process_id va, p) \<in> set (processes s)" by (rule map_of_SomeD)
    with Cons.prems(1) have "table_ok 1 (time s) (page_table p)" by (auto simp: frames_ok_def)
    then show "get_oldest_page (page_table p) = get_least_recently_used_page (page_table p)"
      using Cons.prems(2) by (rule single_resident_victims)
  qed
  show ?case
  proof (cases "perform_memory_access (flags\<lparr>strategy := FIFO\<rparr>) va s")
    case (Returned s1)
    then have "state_of (perform_memory_access (flags\<lparr>strategy := FIFO\<rparr>) va s) = Some s1" by simp
    from access_frames_ok [OF this] Cons.prems assms(3)
    have ok1: "frames_ok 1 (time s + 1) s1" and t1: "time s1 = time s" by simp_all
    show ?thesis
    proof (cases "time s1 < INT_MAX")
      case True
      let ?s2 = "s1\<lparr>time := time s1 + 1\<rparr>"
      have "frames_ok 1 (time ?s2) ?s2" "time ?s2 \<le> INT_MAX" using ok1 t1 True by simp_all
      from Cons.IH [OF this] show ?thesis using Returned eq True by simp
    next
      case False
      then show ?thesis using Returned eq by simp
    qed
  next
    case (Exited f s1)
    then show ?thesis using eq by simp
  next
    case (Undefined u)
    then show ?thesis using eq by simp
  qed
qed

section \<open>Resident entries are stamped before the clock\<close>

text \<open>
  An access stamps an entry with the current clock value, and the clock of a state that
  \<^const>\<open>run\<close> reaches is at most \<^verbatim>\<open>INT_MAX\<close>; so the timestamps of the resident
  entries are below \<^verbatim>\<open>INT_MAX\<close> whenever the next access selects a victim, for
  every budget and both strategies.
\<close>

lemma table_step_stamps:
  assumes step: "table_step flags t pg rows free = Some (rows', free')"
    and old: "\<forall>r \<in> set rows. present r \<longrightarrow> loaded_at r < t \<and> last_accessed_at r < t"
  shows "\<forall>r \<in> set rows'. present r \<longrightarrow> loaded_at r < t + 1 \<and> last_accessed_at r < t + 1"
proof (cases "pg < length rows")
  case False
  then show ?thesis using step old by (fastforce simp: table_step_def)
next
  case True
  then have pg: "rows ! pg \<in> set rows" by simp
  have evict: "\<forall>r \<in> set (rows[v := (rows ! v)\<lparr>present := False\<rparr>]).
      present r \<longrightarrow> loaded_at r < t + 1 \<and> last_accessed_at r < t + 1" for v
    using old by (fastforce dest!: in_set_update)
  have repl: "\<forall>r \<in> set (replace_page rows v pg t).
      present r \<longrightarrow> loaded_at r < t + 1 \<and> last_accessed_at r < t + 1" for v
  proof -
    define rows1 where "rows1 = rows[v := (rows ! v)\<lparr>present := False\<rparr>]"
    have e: "\<forall>r \<in> set rows1. present r \<longrightarrow> loaded_at r < t + 1 \<and> last_accessed_at r < t + 1"
      using evict [of v] by (simp add: rows1_def)
    have "replace_page rows v pg t = load_page rows1 pg (frame (rows1 ! v)) t"
      by (simp add: replace_page_def Let_def rows1_def)
    then show ?thesis using e by (fastforce simp: load_page_def dest!: in_set_update)
  qed
  have load: "\<forall>r \<in> set (load_page rows pg f t).
      present r \<longrightarrow> loaded_at r < t + 1 \<and> last_accessed_at r < t + 1" for f
    using old by (fastforce simp: load_page_def dest!: in_set_update)
  have touch: "\<forall>r \<in> set (touch_page rows pg t).
      present r \<longrightarrow> loaded_at r < t + 1 \<and> last_accessed_at r < t + 1"
    using old pg by (fastforce simp: touch_page_def dest!: in_set_update)
  show ?thesis
    using step True repl load touch
    by (auto simp: table_step_def split: if_splits list.splits)
qed

lemma stamped_before_time [simp]: "stamped_before b (s\<lparr>time := x\<rparr>) = stamped_before b s"
  by (simp add: stamped_before_def)

lemma access_stamps:
  assumes acc: "state_of (perform_memory_access flags va s) = Some s'"
    and old: "stamped_before (time s) s"
  shows "stamped_before (time s + 1) s' \<and> time s' = time s"
proof -
  from access_table_step [OF acc] obtain p p' where
    p: "map_of (processes s) (process_id va) = Some p"
    and upd: "processes s' = AList.update (process_id va) p' (processes s)"
    and time: "time s' = time s"
    and step: "table_step flags (time s) (page va) (page_table p) (free_frames s)
               = Some (page_table p', free_frames s')"
    by blast
  from p have "(process_id va, p) \<in> set (processes s)" by (rule map_of_SomeD)
  with old have "\<forall>r \<in> set (page_table p).
      present r \<longrightarrow> loaded_at r < time s \<and> last_accessed_at r < time s"
    by (auto simp: stamped_before_def)
  from table_step_stamps [OF step this]
  have p': "\<forall>r \<in> set (page_table p').
      present r \<longrightarrow> loaded_at r < time s + 1 \<and> last_accessed_at r < time s + 1" .
  have "\<forall>r \<in> set (page_table q).
      present r \<longrightarrow> loaded_at r < time s + 1 \<and> last_accessed_at r < time s + 1"
    if "(pid, q) \<in> set (processes s')" for pid q
  proof -
    from that have "(pid = process_id va \<and> q = p') \<or> (pid, q) \<in> set (processes s)"
      unfolding upd by (rule set_update_cases)
    then show ?thesis using p' old by (fastforce simp: stamped_before_def)
  qed
  then show ?thesis using time by (auto simp: stamped_before_def)
qed

lemma loop_stamps:
  assumes "access_loop flags vas s = Returned s'" and "stamped_before (time s) s"
    and "time s \<le> INT_MAX"
  shows "stamped_before (time s') s' \<and> time s' \<le> INT_MAX"
  using assms
proof (induction vas arbitrary: s)
  case Nil
  then show ?case by simp
next
  case (Cons va vas)
  show ?case
  proof (cases "perform_memory_access flags va s")
    case (Returned s1)
    then have "state_of (perform_memory_access flags va s) = Some s1" by simp
    from access_stamps [OF this Cons.prems(2)]
    have st: "stamped_before (time s1 + 1) s1" by simp
    from Cons.prems(1) Returned have lt: "time s1 < INT_MAX" by (auto split: if_splits)
    let ?s2 = "s1\<lparr>time := time s1 + 1\<rparr>"
    have "access_loop flags vas ?s2 = Returned s'" using Cons.prems(1) Returned lt by simp
    moreover have "stamped_before (time ?s2) ?s2" using st by simp
    moreover have "time ?s2 \<le> INT_MAX" using lt by simp
    ultimately show ?thesis by (rule Cons.IH)
  next
    case (Exited f s1)
    then show ?thesis using Cons.prems(1) by simp
  next
    case (Undefined u)
    then show ?thesis using Cons.prems(1) by simp
  qed
qed

lemma resident_stamps_below_INT_MAX:
  assumes "unstarted s" and "run flags vas s = Returned s'"
    and "map_of (processes s') pid = Some p" and "r \<in> set (page_table p)" and "present r"
  shows "loaded_at r < INT_MAX \<and> last_accessed_at r < INT_MAX"
proof -
  let ?s = "s\<lparr>free_frames := free_frames s @ [0..<512]\<rparr>"
  have "stamped_before (time ?s) ?s" using assms(1) by (auto simp: stamped_before_def unstarted_def)
  moreover have "time ?s \<le> INT_MAX" using assms(1) by (simp add: unstarted_def)
  moreover have "access_loop flags vas ?s = Returned s'" using assms(2) by (simp add: run_def)
  ultimately have "stamped_before (time s') s' \<and> time s' \<le> INT_MAX"
    using loop_stamps [of flags vas ?s s'] by blast
  moreover have "(pid, p) \<in> set (processes s')" using assms(3) by (rule map_of_SomeD)
  ultimately show ?thesis using assms(4,5) by (fastforce simp: stamped_before_def)
qed

section \<open>Evaluating the examples\<close>

lemma pool_front: "[0..<512] = 0 # [Suc 0..<512]"
  by (rule upt_conv_Cons) simp

lemma pool_rest: "removeAll 0 [Suc 0..<512] = [Suc 0..<512]"
  by (rule removeAll_id) simp

lemma unstarted_loaded_sim: "unstarted loaded_sim"
  by (simp add: unstarted_def loaded_sim_def two_page_process_def blank_row_def INT_MAX_def)

lemma run_three_accesses:
  "run one_frame [va_page 0, va_page 0, va_page 1] loaded_sim = Returned after_three"
  by (simp add: run_def one_frame_def va_page_def loaded_sim_def two_page_process_def
      blank_row_def after_three_def after_three_process_def
      perform_memory_access_def handle_page_fault_def finish_access_def Let_def
      is_valid_page_def is_valid_offset_def get_rss_def get_present_page_count_def
      get_oldest_page_def load_page_def replace_page_def touch_page_def INT_MAX_def
      pool_front pool_rest del: upt_rec_numeral)

lemma run_without_budget: "run no_frame [va_page 0] loaded_sim = Returned over_budget"
  by (simp add: run_def no_frame_def va_page_def loaded_sim_def two_page_process_def
      blank_row_def over_budget_def over_budget_process_def
      perform_memory_access_def handle_page_fault_def finish_access_def Let_def
      is_valid_page_def get_rss_def get_present_page_count_def
      get_oldest_page_def load_page_def replace_page_def INT_MAX_def del: upt_rec_numeral)

section \<open>Victim selection\<close>







text \<open>
  Claim C10. On a page table with no present entry, that is, one whose
  \<^verbatim>\<open>get_present_page_count\<close> is 0, \<^verbatim>\<open>get_oldest_page\<close> and
  \<^verbatim>\<open>get_least_recently_used_page\<close> both return index 0: the candidate index starts
  at 0 and no row replaces it.
\<close>

theorem empty_resident_set_returns_zero:
  assumes "get_present_page_count rows = 0"
  shows "get_oldest_page rows = 0 \<and> get_least_recently_used_page rows = 0"
proof -
  have none: "\<not> present r" if "r \<in> set rows" for r
    using assms that by (auto simp: present_count_filter filter_empty_conv)
  have "min_scan loaded_at rows 0 0 INT_MAX = 0" using none by (intro min_scan_none) blast
  moreover have "min_scan last_accessed_at rows 0 0 INT_MAX = 0"
    using none by (intro min_scan_none) blast
  ultimately show ?thesis
    by (simp add: get_oldest_page_def get_least_recently_used_page_def oldest_loop_scan
        last_used_loop_scan)
qed

theorem empty_resident_set_returns_zero_witness:
  "get_present_page_count (page_table two_page_process) = 0
   \<and> get_oldest_page (page_table two_page_process) = 0
   \<and> get_least_recently_used_page (page_table two_page_process) = 0"
proof -
  have h: "get_present_page_count (page_table two_page_process) = 0"
    by (simp add: two_page_process_def blank_row_def get_present_page_count_def)
  from empty_resident_set_returns_zero [OF h] h show ?thesis by blast
qed

section \<open>Resident-set size and frame accounting\<close>

text \<open>
  Claim C3, amended. When \<^verbatim>\<open>max_frames\<close> is at least 1, then in every state the
  simulation reaches, after any number of processed accesses and also where it exits
  on a segmentation fault, the resident-set size of every process is at most
  \<^verbatim>\<open>max_frames\<close>.
\<close>

theorem rss_within_budget:
  assumes "0 < max_frames flags" and "unstarted s"
    and "state_of (run flags vas s) = Some s'" and "map_of (processes s') pid = Some p"
  shows "get_rss p \<le> max_frames flags"
proof -
  from run_frames_ok [OF assms(3,2,1)]
  have "frames_ok (max_frames flags) (time s' + 1) s'" by simp
  moreover have "(pid, p) \<in> set (processes s')" using assms(4) by (rule map_of_SomeD)
  ultimately show ?thesis by (auto simp: frames_ok_def table_ok_def get_rss_def)
qed

theorem rss_within_budget_witness:
  "0 < max_frames one_frame \<and> unstarted loaded_sim
   \<and> state_of (run one_frame [va_page 0, va_page 0, va_page 1] loaded_sim) = Some after_three
   \<and> map_of (processes after_three) 7 = Some after_three_process
   \<and> get_rss after_three_process \<le> max_frames one_frame"
proof -
  have h1: "0 < max_frames one_frame" by (simp add: one_frame_def)
  have h3: "state_of (run one_frame [va_page 0, va_page 0, va_page 1] loaded_sim)
      = Some after_three"
    by (simp only: run_three_accesses state_of.simps)
  have h4: "map_of (processes after_three) 7 = Some after_three_process"
    by (simp add: after_three_def)
  from rss_within_budget [OF h1 unstarted_loaded_sim h3 h4] h1 unstarted_loaded_sim h3 h4
  show ?thesis by blast
qed

theorem rss_over_zero_budget_counterexample:
  "unstarted loaded_sim
   \<and> state_of (run no_frame [va_page 0] loaded_sim) = Some over_budget
   \<and> map_of (processes over_budget) 7 = Some over_budget_process
   \<and> get_rss over_budget_process = 1 \<and> max_frames no_frame = 0"
  by (simp add: unstarted_loaded_sim run_without_budget)
     (simp add: over_budget_def over_budget_process_def blank_row_def no_frame_def get_rss_def
        get_present_page_count_def)




section \<open>Timestamps\<close>

text \<open>
  Claim C7. If every entry has \<^verbatim>\<open>loaded_at \<le> last_accessed_at\<close> when the simulation
  starts (the values of a fresh entry are declared in a header that is not among the
  sources), then every entry of every process has it in every state the simulation
  reaches: after each processed access, and where the program exits on a segmentation
  fault.
\<close>

theorem loaded_before_accessed:
  assumes "unstarted s" and "loads_precede_accesses s"
    and "state_of (run flags vas s) = Some s'"
  shows "loads_precede_accesses s'"
proof -
  let ?s = "s\<lparr>free_frames := free_frames s @ [0..<512]\<rparr>"
  have "entries_ordered (time ?s) ?s"
    using assms(1,2)
    by (fastforce simp: entries_ordered_def table_ordered_def unstarted_def
        loads_precede_accesses_def)
  moreover have "state_of (access_loop flags vas ?s) = Some s'"
    using assms(3) by (simp add: run_def)
  ultimately have "entries_ordered (time s') s'" by (rule loop_entries_ordered [rotated])
  then show ?thesis
    by (fastforce simp: entries_ordered_def table_ordered_def loads_precede_accesses_def)
qed

theorem loaded_before_accessed_witness:
  "unstarted loaded_sim \<and> loads_precede_accesses loaded_sim
   \<and> state_of (run one_frame [va_page 0, va_page 0, va_page 1] loaded_sim) = Some after_three
   \<and> loads_precede_accesses after_three
   \<and> loaded_at (page_table after_three_process ! 0) = 0
   \<and> last_accessed_at (page_table after_three_process ! 0) = 1"
proof -
  have h2: "loads_precede_accesses loaded_sim"
    by (simp add: loads_precede_accesses_def loaded_sim_def two_page_process_def blank_row_def)
  have h3: "state_of (run one_frame [va_page 0, va_page 0, va_page 1] loaded_sim)
      = Some after_three"
    by (simp only: run_three_accesses state_of.simps)
  have c: "loaded_at (page_table after_three_process ! 0) = 0"
    "last_accessed_at (page_table after_three_process ! 0) = 1"
    by (simp_all add: after_three_process_def)
  from loaded_before_accessed [OF unstarted_loaded_sim h2 h3] unstarted_loaded_sim h2 h3 c
  show ?thesis by blast
qed

section \<open>One frame per process\<close>

text \<open>
  Claim C8. With \<^verbatim>\<open>max_frames = 1\<close>, a run under FIFO and a run under LRU of the
  same trace from the same start end in the same way: the same outcome, with the same
  page tables, counters, pool, frames and output (which in verbose mode lists every hit
  and every fault in order). In every state the run passes through, the two selection
  functions return the same page for every process, and that page is the resident one
  when the process has one.
\<close>

theorem single_frame_strategies_agree:
  assumes "max_frames flags = 1" and "unstarted s"
  shows "run (flags\<lparr>strategy := FIFO\<rparr>) vas s = run (flags\<lparr>strategy := LRU\<rparr>) vas s
     \<and> (run flags vas s = Returned s' \<and> map_of (processes s') pid = Some p \<longrightarrow>
          get_oldest_page (page_table p) = get_least_recently_used_page (page_table p)
          \<and> (get_rss p = 1 \<longrightarrow> present (page_table p ! get_oldest_page (page_table p))))"
proof -
  let ?s = "s\<lparr>free_frames := free_frames s @ [0..<512]\<rparr>"
  have "frames_ok 1 (time ?s) ?s" using unstarted_frames_ok [OF assms(2), of 1] by simp
  moreover have "time ?s \<le> INT_MAX" using assms(2) by (simp add: unstarted_def)
  ultimately have "access_loop (flags\<lparr>strategy := FIFO\<rparr>) vas ?s
      = access_loop (flags\<lparr>strategy := LRU\<rparr>) vas ?s"
    using assms(1) by (rule loop_strategy)
  then have first: "run (flags\<lparr>strategy := FIFO\<rparr>) vas s = run (flags\<lparr>strategy := LRU\<rparr>) vas s"
    by (simp add: run_def)
  have second: "get_oldest_page (page_table p) = get_least_recently_used_page (page_table p)
      \<and> (get_rss p = 1 \<longrightarrow> present (page_table p ! get_oldest_page (page_table p)))"
    if ret: "run flags vas s = Returned s'" and p: "map_of (processes s') pid = Some p"
  proof -
    from ret have "state_of (run flags vas s) = Some s'" by simp
    from run_frames_ok [OF this assms(2)] assms(1) ret
    have ok: "frames_ok 1 (time s') s'" and t: "time s' \<le> INT_MAX" by simp_all
    have "(pid, p) \<in> set (processes s')" using p by (rule map_of_SomeD)
    with ok have tab: "table_ok 1 (time s') (page_table p)" by (auto simp: frames_ok_def)
    have "present (page_table p ! get_oldest_page (page_table p))" if "get_rss p = 1"
    proof -
      from that have "\<not> get_present_page_count (page_table p) < 1" by (simp add: get_rss_def)
      from victim_present(1) [OF tab t _ this] show ?thesis by simp
    qed
    then show ?thesis using single_resident_victims [OF tab t] by simp
  qed
  from first second show ?thesis by blast
qed

theorem single_frame_strategies_agree_witness:
  "max_frames one_frame = 1 \<and> unstarted loaded_sim
   \<and> run one_frame [va_page 0, va_page 0, va_page 1] loaded_sim = Returned after_three
   \<and> map_of (processes after_three) 7 = Some after_three_process
   \<and> get_rss after_three_process = 1
   \<and> run (one_frame\<lparr>strategy := FIFO\<rparr>) [va_page 0, va_page 0, va_page 1] loaded_sim
       = run (one_frame\<lparr>strategy := LRU\<rparr>) [va_page 0, va_page 0, va_page 1] loaded_sim
   \<and> get_oldest_page (page_table after_three_process)
       = get_least_recently_used_page (page_table after_three_process)
   \<and> present (page_table after_three_process ! get_oldest_page (page_table after_three_process))"
proof -
  have h1: "max_frames one_frame = 1" by (simp add: one_frame_def)
  have h4: "map_of (processes after_three) 7 = Some after_three_process"
    by (simp add: after_three_def)
  have h5: "get_rss after_three_process = 1"
    by (simp add: after_three_process_def get_rss_def get_present_page_count_def)
  from single_frame_strategies_agree [OF h1 unstarted_loaded_sim,
      of "[va_page 0, va_page 0, va_page 1]" after_three 7 after_three_process]
    h1 unstarted_loaded_sim run_three_accesses h4 h5
  show ?thesis by blast
qed

section \<open>Segmentation faults\<close>

lemma access_loop_append:
  "access_loop flags (xs @ ys) s =
     (case access_loop flags xs s of
        Returned s' \<Rightarrow> access_loop flags ys s'
      | Exited f s' \<Rightarrow> Exited f s'
      | Undefined u \<Rightarrow> Undefined u)"
  by (induction xs arbitrary: s) (auto split: outcome.splits)

lemma run_append:
  "run flags pre s0 = Returned s \<Longrightarrow> run flags (pre @ vas) s0 = access_loop flags vas s"
  by (simp add: run_def access_loop_append)

text \<open>
  Claim C5. When the page index of an access is outside the page table of its process,
  \<^verbatim>\<open>perform_memory_access\<close> exits with the invalid-page fault in a state that differs
  from the one before the access only in that process's \<^verbatim>\<open>memory_accesses\<close>, which
  is one larger, and in the lines printed; and the run ends there, whatever addresses
  follow in the trace.
\<close>

theorem invalid_page_halts:
  assumes "run flags pre s0 = Returned s"
    and "map_of (processes s) (process_id va) = Some p"
    and "\<not> is_valid_page p (page va)"
  shows "perform_memory_access flags va s =
           Exited InvalidPage
             (s\<lparr>processes := AList.update (process_id va)
                    (p\<lparr>memory_accesses := memory_accesses p + 1\<rparr>) (processes s),
                stdout := stdout s @ (if verbose flags then [PrintAddress va] else [])
                    @ [SegfaultInvalidPage]\<rparr>)
     \<and> run flags (pre @ va # rest) s0 = perform_memory_access flags va s"
proof -
  have acc: "perform_memory_access flags va s =
           Exited InvalidPage
             (s\<lparr>processes := AList.update (process_id va)
                    (p\<lparr>memory_accesses := memory_accesses p + 1\<rparr>) (processes s),
                stdout := stdout s @ (if verbose flags then [PrintAddress va] else [])
                    @ [SegfaultInvalidPage]\<rparr>)"
    using assms(2,3)
    by (cases "verbose flags") (simp_all add: perform_memory_access_def Let_def is_valid_page_def)
  have "run flags (pre @ va # rest) s0 = access_loop flags (va # rest) s"
    using assms(1) by (rule run_append)
  also have "\<dots> = perform_memory_access flags va s" by (simp add: acc)
  finally show ?thesis using acc by simp
qed

theorem invalid_page_halts_witness:
  "run one_frame [va_page 0, va_page 0, va_page 1] loaded_sim = Returned after_three
   \<and> map_of (processes after_three) (process_id (va_page 2)) = Some after_three_process
   \<and> \<not> is_valid_page after_three_process (page (va_page 2))
   \<and> perform_memory_access one_frame (va_page 2) after_three =
       Exited InvalidPage
         (after_three\<lparr>processes := [(7, after_three_process\<lparr>memory_accesses := 4\<rparr>)],
            stdout := stdout after_three @ [PrintAddress (va_page 2), SegfaultInvalidPage]\<rparr>)
   \<and> run one_frame ([va_page 0, va_page 0, va_page 1] @ va_page 2 # [va_page 0]) loaded_sim
       = perform_memory_access one_frame (va_page 2) after_three"
proof -
  have h2: "map_of (processes after_three) (process_id (va_page 2)) = Some after_three_process"
    by (simp add: after_three_def va_page_def)
  have h3: "\<not> is_valid_page after_three_process (page (va_page 2))"
    by (simp add: is_valid_page_def after_three_process_def va_page_def)
  have e: "AList.update (process_id (va_page 2))
      (after_three_process\<lparr>memory_accesses := memory_accesses after_three_process + 1\<rparr>)
      (processes after_three) = [(7, after_three_process\<lparr>memory_accesses := 4\<rparr>)]"
    by (simp add: after_three_def after_three_process_def va_page_def)
  have v: "verbose one_frame" by (simp add: one_frame_def)
  from invalid_page_halts [OF run_three_accesses h2 h3, of "[va_page 0]"]
    run_three_accesses h2 h3
  show ?thesis unfolding e using v by simp
qed








end
